theory Spec2Isabelle
  imports Main
begin

section \<open>The contact hash table of hash\_table.py\<close>

text \<open>
  The program keeps three kinds of objects: \<open>Contact\<close> (a name and a number),
  \<open>Node\<close> (a key, a reference to a Contact and a reference to the next Node, or
  \<open>None\<close>) and one \<open>HashTable\<close> (a size and a list of chain heads). Contacts and
  nodes are mutable and are reached through references: \<open>search\<close> hands a reference
  to a Contact out of the table, and \<open>insert\<close> writes through \<open>current.value\<close> and
  \<open>current.next\<close>. The model therefore keeps an explicit store. Objects live in two
  arenas, a reference is the position of the object in its arena, and creating an object
  appends it to its arena, so a new reference is always fresh.

  A Python \<open>str\<close> is modelled as a \<open>string\<close>, so the characters of a key are the code
  points below 256 and \<open>ord\<close> is \<open>of_char\<close>.
\<close>

subsection \<open>Objects and the store\<close>

type_synonym ref = nat

record Contact =
  name :: string
  number :: string

record Node =
  key :: string
  value_node :: ref
  next_node :: "ref option"

record heap =
  contacts :: "Contact list"
  nodes :: "Node list"

record HashTable =
  size_table :: int
  data :: "ref option list"

text \<open>
  The exceptions the code can raise: \<open>ValueError\<close> is raised by the constructor,
  \<open>ZeroDivisionError\<close> by \<open>%\<close> and \<open>IndexError\<close> by list indexing.
  \<open>NoSuchObject\<close> is not a Python exception: it is what the model answers when a
  reference points outside its arena, which no Python reference can do.
\<close>

datatype error = ValueError | ZeroDivisionError | IndexError | NoSuchObject

definition empty_heap :: heap where
  "empty_heap = \<lparr>contacts = [], nodes = []\<rparr>"

text \<open>\<open>Contact(name, number)\<close> and \<open>Node(key, value)\<close>: the new object and its reference.\<close>

definition new_Contact :: "heap \<Rightarrow> string \<Rightarrow> string \<Rightarrow> ref \<times> heap" where
  "new_Contact h nm num =
     (length (contacts h), h\<lparr>contacts := contacts h @ [\<lparr>name = nm, number = num\<rparr>]\<rparr>)"

definition new_Node :: "heap \<Rightarrow> string \<Rightarrow> ref \<Rightarrow> ref \<times> heap" where
  "new_Node h k v =
     (length (nodes h), h\<lparr>nodes := nodes h @ [\<lparr>key = k, value_node = v, next_node = None\<rparr>]\<rparr>)"

definition Node_at :: "heap \<Rightarrow> ref \<Rightarrow> Node option" where
  "Node_at h a = (if a < length (nodes h) then Some (nodes h ! a) else None)"

definition Contact_at :: "heap \<Rightarrow> ref \<Rightarrow> Contact option" where
  "Contact_at h c = (if c < length (contacts h) then Some (contacts h ! c) else None)"

text \<open>Python's \<open>xs[i]\<close> and \<open>xs[i] = v\<close>: a negative index counts from the end.\<close>

definition list_position :: "'a list \<Rightarrow> int \<Rightarrow> error + nat" where
  "list_position xs i =
     (let j = (if i < 0 then i + int (length xs) else i)
      in if 0 \<le> j \<and> j < int (length xs) then Inr (nat j) else Inl IndexError)"

definition getitem :: "'a list \<Rightarrow> int \<Rightarrow> error + 'a" where
  "getitem xs i = (case list_position xs i of Inl e \<Rightarrow> Inl e | Inr j \<Rightarrow> Inr (xs ! j))"

definition setitem :: "'a list \<Rightarrow> int \<Rightarrow> 'a \<Rightarrow> error + 'a list" where
  "setitem xs i v = (case list_position xs i of Inl e \<Rightarrow> Inl e | Inr j \<Rightarrow> Inr (xs[j := v]))"

subsection \<open>HashTable.\_\_init\_\_ and hash\_function\<close>

definition HashTable_init :: "int \<Rightarrow> error + HashTable" where
  "HashTable_init sz =
     (if sz \<le> 0 then Inl ValueError
      else Inr \<lparr>size_table = sz, data = replicate (nat sz) None\<rparr>)"

definition ord :: "char \<Rightarrow> int" where
  "ord ch = of_char ch"

definition hash_function :: "HashTable \<Rightarrow> string \<Rightarrow> error + int" where
  "hash_function t k =
     (let total = fold (\<lambda>ch total. total + ord ch) k 0
      in if size_table t = 0 then Inl ZeroDivisionError else Inr (total mod size_table t))"

subsection \<open>insert\<close>

text \<open>
  \<open>insert\<close> is named \<open>insert_contact\<close> here. The \<open>while current:\<close> loop of
  \<open>insert\<close>, entered with \<open>current\<close> a node. The loop
  has three exits: the key is found and the number of its contact is overwritten; the
  last node is reached and the new node is linked behind it (the \<open>break\<close> and the
  statement after the loop); or it moves on. A chain that runs in a circle keeps the loop
  running, which is the value \<open>None\<close>.
\<close>

partial_function (option) insert_loop ::
  "heap \<Rightarrow> ref \<Rightarrow> string \<Rightarrow> string \<Rightarrow> ref \<Rightarrow> (error + heap) option" where
  "insert_loop h current k num new_contact =
     (case Node_at h current of
        None \<Rightarrow> Some (Inl NoSuchObject)
      | Some nd \<Rightarrow>
          if key nd = k then
            (case Contact_at h (value_node nd) of
               None \<Rightarrow> Some (Inl NoSuchObject)
             | Some c \<Rightarrow>
                 Some (Inr (h\<lparr>contacts := (contacts h)[value_node nd := c\<lparr>number := num\<rparr>]\<rparr>)))
          else
            (case next_node nd of
               None \<Rightarrow>
                 (let (n, h') = new_Node h k new_contact
                  in Some (Inr (h'\<lparr>nodes := (nodes h')[current := nd\<lparr>next_node := Some n\<rparr>]\<rparr>)))
             | Some nx \<Rightarrow> insert_loop h nx k num new_contact))"

declare insert_loop.simps [code]

definition insert_contact :: "heap \<Rightarrow> HashTable \<Rightarrow> string \<Rightarrow> string \<Rightarrow> (error + heap \<times> HashTable) option" where
  "insert_contact h t k num =
     (case hash_function t k of
        Inl e \<Rightarrow> Some (Inl e)
      | Inr index \<Rightarrow>
          (let (new_contact, h1) = new_Contact h k num
           in case getitem (data t) index of
                Inl e \<Rightarrow> Some (Inl e)
              | Inr None \<Rightarrow>
                  (let (n, h2) = new_Node h1 k new_contact
                   in case setitem (data t) index (Some n) of
                        Inl e \<Rightarrow> Some (Inl e)
                      | Inr d \<Rightarrow> Some (Inr (h2, t\<lparr>data := d\<rparr>)))
              | Inr (Some head) \<Rightarrow>
                  (case insert_loop h1 head k num new_contact of
                     None \<Rightarrow> None
                   | Some (Inl e) \<Rightarrow> Some (Inl e)
                   | Some (Inr h2) \<Rightarrow> Some (Inr (h2, t)))))"

subsection \<open>search\<close>

text \<open>The loop of \<open>search\<close>; the result is the reference \<open>current.value\<close>, or \<open>None\<close>.\<close>

partial_function (option) search_loop ::
  "heap \<Rightarrow> ref option \<Rightarrow> string \<Rightarrow> (error + ref option) option" where
  "search_loop h current k =
     (case current of
        None \<Rightarrow> Some (Inr None)
      | Some a \<Rightarrow>
          (case Node_at h a of
             None \<Rightarrow> Some (Inl NoSuchObject)
           | Some nd \<Rightarrow>
               if key nd = k then Some (Inr (Some (value_node nd)))
               else search_loop h (next_node nd) k))"

declare search_loop.simps [code]

definition search :: "heap \<Rightarrow> HashTable \<Rightarrow> string \<Rightarrow> (error + ref option) option" where
  "search h t k =
     (case hash_function t k of
        Inl e \<Rightarrow> Some (Inl e)
      | Inr index \<Rightarrow>
          (case getitem (data t) index of
             Inl e \<Rightarrow> Some (Inl e)
           | Inr current \<Rightarrow> search_loop h current k))"

subsection \<open>print\_table\<close>

text \<open>
  \<open>print_table\<close> writes to standard output; the model returns the text written, with
  \<open>CHR 0x0A\<close> for the newline. \<open>str_nat\<close> is \<open>str\<close> on the indices of
  \<open>range(self.size)\<close>, which are never negative, and \<open>Contact_str\<close> is
  \<open>Contact.__str__\<close>.
\<close>

fun str_nat :: "nat \<Rightarrow> string" where
  "str_nat n =
     (if n < 10 then [char_of (48 + n)]
      else str_nat (n div 10) @ [char_of (48 + n mod 10)])"

declare str_nat.simps [simp del]

definition Contact_str :: "Contact \<Rightarrow> string" where
  "Contact_str c = name c @ '': '' @ number c"

text \<open>The inner loop: every node of the chain is written as \<open>- name: number\<close> and a space.\<close>

partial_function (option) print_chain :: "heap \<Rightarrow> ref option \<Rightarrow> (error + string) option" where
  "print_chain h current =
     (case current of
        None \<Rightarrow> Some (Inr [])
      | Some a \<Rightarrow>
          (case Node_at h a of
             None \<Rightarrow> Some (Inl NoSuchObject)
           | Some nd \<Rightarrow>
               (case Contact_at h (value_node nd) of
                  None \<Rightarrow> Some (Inl NoSuchObject)
                | Some c \<Rightarrow>
                    Option.bind (print_chain h (next_node nd))
                      (\<lambda>r. case r of
                             Inl e \<Rightarrow> Some (Inl e)
                           | Inr rest \<Rightarrow> Some (Inr (''- '' @ Contact_str c @ '' '' @ rest))))))"

declare print_chain.simps [code]

text \<open>The body of the \<open>for\<close> loop for bucket \<open>i\<close>: one line of output.\<close>

definition print_bucket :: "heap \<Rightarrow> HashTable \<Rightarrow> nat \<Rightarrow> (error + string) option" where
  "print_bucket h t i =
     (case getitem (data t) (int i) of
        Inl e \<Rightarrow> Some (Inl e)
      | Inr None \<Rightarrow> Some (Inr (''Index '' @ str_nat i @ '': '' @ ''Empty'' @ [CHR 0x0A]))
      | Inr (Some a) \<Rightarrow>
          (case print_chain h (Some a) of
             None \<Rightarrow> None
           | Some (Inl e) \<Rightarrow> Some (Inl e)
           | Some (Inr chain) \<Rightarrow> Some (Inr (''Index '' @ str_nat i @ '': '' @ chain @ [CHR 0x0A]))))"

fun print_buckets :: "heap \<Rightarrow> HashTable \<Rightarrow> nat list \<Rightarrow> (error + string) option" where
  "print_buckets h t [] = Some (Inr [])"
| "print_buckets h t (i # rest) =
     (case print_bucket h t i of
        None \<Rightarrow> None
      | Some (Inl e) \<Rightarrow> Some (Inl e)
      | Some (Inr line) \<Rightarrow>
          (case print_buckets h t rest of
             None \<Rightarrow> None
           | Some (Inl e) \<Rightarrow> Some (Inl e)
           | Some (Inr out) \<Rightarrow> Some (Inr (line @ out))))"

definition print_table :: "heap \<Rightarrow> HashTable \<Rightarrow> (error + string) option" where
  "print_table h t = print_buckets h t [0..<nat (size_table t)]"

subsection \<open>Sequences of calls and what a table holds\<close>

text \<open>A sequence of \<open>insert\<close> calls, stopping at the first that raises or does not return.\<close>

fun insert_all ::
  "heap \<Rightarrow> HashTable \<Rightarrow> (string \<times> string) list \<Rightarrow> (error + heap \<times> HashTable) option" where
  "insert_all h t [] = Some (Inr (h, t))"
| "insert_all h t ((k, num) # rest) =
     (case insert_contact h t k num of
        None \<Rightarrow> None
      | Some (Inl e) \<Rightarrow> Some (Inl e)
      | Some (Inr (h', t')) \<Rightarrow> insert_all h' t' rest)"

text \<open>
  \<open>built sz calls h t\<close>: the program constructed \<open>HashTable(sz)\<close> and made the
  \<open>insert\<close> calls \<open>calls\<close> on it, in this order, all of which returned, and the store
  and the table are now \<open>h\<close> and \<open>t\<close>.
\<close>

definition built :: "int \<Rightarrow> (string \<times> string) list \<Rightarrow> heap \<Rightarrow> HashTable \<Rightarrow> bool" where
  "built sz calls h t =
     (case HashTable_init sz of
        Inl e \<Rightarrow> False
      | Inr t0 \<Rightarrow> insert_all empty_heap t0 calls = Some (Inr (h, t)))"

text \<open>
  The nodes of a chain, from its head, in the order the loops visit them; \<open>None\<close> when
  following \<open>next\<close> never reaches \<open>None\<close>.
\<close>

partial_function (option) chain_refs :: "heap \<Rightarrow> ref option \<Rightarrow> ref list option" where
  "chain_refs h current =
     (case current of
        None \<Rightarrow> Some []
      | Some a \<Rightarrow>
          (case Node_at h a of
             None \<Rightarrow> None
           | Some nd \<Rightarrow>
               Option.bind (chain_refs h (next_node nd)) (\<lambda>rest. Some (a # rest))))"

declare chain_refs.simps [code]

text \<open>An entry as the table shows it: the key of the node and the contact it refers to.\<close>

definition entry :: "heap \<Rightarrow> ref \<Rightarrow> string \<times> Contact" where
  "entry h a = (key (nodes h ! a), contacts h ! value_node (nodes h ! a))"

definition bucket_entries :: "heap \<Rightarrow> HashTable \<Rightarrow> nat \<Rightarrow> (string \<times> Contact) list option" where
  "bucket_entries h t i = map_option (map (entry h)) (chain_refs h (data t ! i))"

text \<open>All entries of the table, bucket after bucket, each chain from its head.\<close>

definition table_entries :: "heap \<Rightarrow> HashTable \<Rightarrow> (string \<times> Contact) list option" where
  "table_entries h t =
     map_option concat (those (map (bucket_entries h t) [0..<length (data t)]))"

subsection \<open>Well-formed tables\<close>

text \<open>
  \<open>is_chain ns p as\<close>: following \<open>next\<close> from \<open>p\<close> through the nodes \<open>ns\<close> visits
  exactly the nodes \<open>as\<close> and then reaches \<open>None\<close>.
\<close>

primrec is_chain :: "Node list \<Rightarrow> ref option \<Rightarrow> ref list \<Rightarrow> bool" where
  "is_chain ns p [] = (p = None)"
| "is_chain ns p (a # as) =
     (p = Some a \<and> a < length ns \<and> is_chain ns (next_node (ns ! a)) as)"

text \<open>
  \<open>table_chains h t bs\<close>: \<open>bs\<close> lists, for every bucket, the nodes of its chain. In a
  well-formed table every key sits in the bucket it hashes to and occurs once in its
  chain, every node has a contact of its own, and the name of that contact is the key.
\<close>

definition table_chains :: "heap \<Rightarrow> HashTable \<Rightarrow> ref list list \<Rightarrow> bool" where
  "table_chains h t bs =
     (length bs = length (data t) \<and>
      (\<forall>i<length bs. is_chain (nodes h) (data t ! i) (bs ! i)))"

definition table_inv :: "heap \<Rightarrow> HashTable \<Rightarrow> ref list list \<Rightarrow> bool" where
  "table_inv h t bs =
     (0 < size_table t \<and> length (data t) = nat (size_table t) \<and> table_chains h t bs \<and>
      (\<forall>i<length bs. \<forall>a\<in>set (bs ! i). hash_function t (key (nodes h ! a)) = Inr (int i)) \<and>
      (\<forall>i<length bs. distinct (map (\<lambda>a. key (nodes h ! a)) (bs ! i))) \<and>
      (\<forall>a<length (nodes h).
         value_node (nodes h ! a) < length (contacts h) \<and>
         name (contacts h ! value_node (nodes h ! a)) = key (nodes h ! a)) \<and>
      distinct (map value_node (nodes h)))"

text \<open>The keys held by the chains \<open>bs\<close>.\<close>

definition chain_keys :: "heap \<Rightarrow> ref list list \<Rightarrow> string set" where
  "chain_keys h bs = (\<Union>j<length bs. (\<lambda>a. key (nodes h ! a)) ` set (bs ! j))"

section \<open>Lemmas and theorems\<close>

lemma is_chain_bound: "is_chain ns p as \<Longrightarrow> a \<in> set as \<Longrightarrow> a < length ns"
  by (induction as arbitrary: p) auto

lemma is_chain_unique: "is_chain ns p as \<Longrightarrow> is_chain ns p bs \<Longrightarrow> as = bs"
proof (induction as arbitrary: p bs)
  case Nil
  then show ?case by (cases bs) auto
next
  case (Cons a as)
  then show ?case by (cases bs) auto
qed

lemma is_chain_append: "is_chain ns p as \<Longrightarrow> is_chain (ns @ [x]) p as"
  by (induction as arbitrary: p) (auto simp: nth_append)

lemma is_chain_update: "a \<notin> set as \<Longrightarrow> is_chain (ns[a := x]) p as = is_chain ns p as"
  by (induction as arbitrary: p) auto

lemma is_chain_snoc:
  assumes "is_chain ns p as" "as \<noteq> []" "distinct as" "next_node x = None"
  shows "is_chain ((ns @ [x])[last as := (ns ! last as)\<lparr>next_node := Some (length ns)\<rparr>]) p
           (as @ [length ns])"
  using assms
proof (induction as arbitrary: p)
  case Nil
  then show ?case by simp
next
  case (Cons a as)
  show ?case
  proof (cases as)
    case Nil
    with Cons.prems show ?thesis by (auto simp: nth_append)
  next
    case (Cons b bs)
    then have ne: "as \<noteq> []" by simp
    with Cons.prems have neq: "a \<noteq> last as" using last_in_set[of as] by auto
    from Cons.prems have a: "p = Some a" "a < length ns" by auto
    from neq a have nth: "(ns @ [x])[last as := (ns ! last as)\<lparr>next_node := Some (length ns)\<rparr>] ! a = ns ! a"
      by (simp add: nth_append)
    from Cons.prems ne have "is_chain ((ns @ [x])[last as := (ns ! last as)\<lparr>next_node := Some (length ns)\<rparr>])
        (next_node (ns ! a)) (as @ [length ns])"
      by (intro Cons.IH) auto
    with a nth ne show ?thesis by simp
  qed
qed

lemma search_loop_chain:
  "is_chain (nodes h) p as \<Longrightarrow>
   search_loop h p k =
     Some (Inr (map_option (\<lambda>a. value_node (nodes h ! a)) (find (\<lambda>a. key (nodes h ! a) = k) as)))"
proof (induction as arbitrary: p)
  case Nil
  then show ?case by (simp add: search_loop.simps)
next
  case (Cons a as)
  then show ?case
    by (subst search_loop.simps) (auto simp: Node_at_def)
qed

lemma chain_refs_chain: "is_chain (nodes h) p as \<Longrightarrow> chain_refs h p = Some as"
proof (induction as arbitrary: p)
  case Nil
  then show ?case by (simp add: chain_refs.simps)
next
  case (Cons a as)
  then show ?case
    by (subst chain_refs.simps) (auto simp: Node_at_def)
qed

lemma insert_loop_found:
  assumes "is_chain (nodes h) (Some c) as"
    and "find (\<lambda>a. key (nodes h ! a) = k) as = Some b"
    and "value_node (nodes h ! b) < length (contacts h)"
  shows "insert_loop h c k num nc =
     Some (Inr (h\<lparr>contacts := (contacts h)[value_node (nodes h ! b) :=
               (contacts h ! value_node (nodes h ! b))\<lparr>number := num\<rparr>]\<rparr>))"
  using assms
proof (induction as arbitrary: c)
  case Nil
  then show ?case by simp
next
  case (Cons a as)
  from Cons.prems have a: "c = a" "a < length (nodes h)" by auto
  show ?case
  proof (cases "key (nodes h ! a) = k")
    case True
    with Cons.prems a show ?thesis
      by (subst insert_loop.simps) (simp add: Node_at_def Contact_at_def)
  next
    case False
    with Cons.prems have f: "find (\<lambda>a. key (nodes h ! a) = k) as = Some b" by simp
    then have "as \<noteq> []" by auto
    with Cons.prems obtain nx where nx: "next_node (nodes h ! a) = Some nx"
      by (cases as) auto
    with Cons.prems have "is_chain (nodes h) (Some nx) as" by simp
    from Cons.IH[OF this f Cons.prems(3)] nx False a show ?thesis
      by (subst insert_loop.simps) (simp add: Node_at_def)
  qed
qed

lemma insert_loop_new:
  assumes "is_chain (nodes h) (Some c) as"
    and "\<forall>a\<in>set as. key (nodes h ! a) \<noteq> k"
  shows "insert_loop h c k num nc =
     Some (Inr (h\<lparr>nodes := (nodes h @ [\<lparr>key = k, value_node = nc, next_node = None\<rparr>])
               [last as := (nodes h ! last as)\<lparr>next_node := Some (length (nodes h))\<rparr>]\<rparr>))"
  using assms
proof (induction as arbitrary: c)
  case Nil
  then show ?case by simp
next
  case (Cons a as)
  from Cons.prems have a: "c = a" "a < length (nodes h)" "key (nodes h ! a) \<noteq> k" by auto
  show ?case
  proof (cases "next_node (nodes h ! a)")
    case None
    with Cons.prems have "as = []" by (cases as) auto
    with None a show ?thesis
      by (subst insert_loop.simps) (simp add: Node_at_def new_Node_def)
  next
    case (Some nx)
    with Cons.prems have ne: "as \<noteq> []" by (cases as) auto
    from Cons.prems Some have "is_chain (nodes h) (Some nx) as" by simp
    from Cons.IH[OF this] Cons.prems(2) Some a ne show ?thesis
      by (subst insert_loop.simps) (simp add: Node_at_def)
  qed
qed

lemma print_chain_chain:
  assumes "is_chain (nodes h) p as"
    and "\<forall>a\<in>set as. value_node (nodes h ! a) < length (contacts h)"
  shows "print_chain h p =
     Some (Inr (concat (map (\<lambda>a. ''- '' @ Contact_str (contacts h ! value_node (nodes h ! a)) @ '' '') as)))"
  using assms
proof (induction as arbitrary: p)
  case Nil
  then show ?case by (simp add: print_chain.simps)
next
  case (Cons a as)
  then show ?case
    by (subst print_chain.simps) (auto simp: Node_at_def Contact_at_def)
qed

lemma is_chain_eq_on:
  "is_chain ns p as \<Longrightarrow> length ns \<le> length ns' \<Longrightarrow>
   \<forall>a\<in>set as. next_node (ns' ! a) = next_node (ns ! a) \<Longrightarrow> is_chain ns' p as"
  by (induction as arbitrary: p) auto

lemma is_chain_snoc_on:
  assumes "is_chain ns p as" "as \<noteq> []" "distinct as" "length ns' = Suc (length ns)"
    and "\<forall>a\<in>set as. a \<noteq> last as \<longrightarrow> next_node (ns' ! a) = next_node (ns ! a)"
    and "next_node (ns' ! last as) = Some (length ns)"
    and "next_node (ns' ! length ns) = None"
  shows "is_chain ns' p (as @ [length ns])"
  using assms
proof (induction as arbitrary: p)
  case Nil
  then show ?case by simp
next
  case (Cons a as)
  from Cons.prems have a: "p = Some a" "a < length ns" by auto
  show ?case
  proof (cases "as = []")
    case True
    with Cons.prems show ?thesis by auto
  next
    case False
    with Cons.prems have neq: "a \<noteq> last as" using last_in_set[of as] by auto
    from False have l: "last (a # as) = last as" by simp
    from Cons.prems neq l have nx: "next_node (ns' ! a) = next_node (ns ! a)" by auto
    have "is_chain ns' (next_node (ns ! a)) (as @ [length ns])"
    proof (rule Cons.IH)
      show "is_chain ns (next_node (ns ! a)) as" using Cons.prems by simp
      show "as \<noteq> []" by fact
      show "distinct as" using Cons.prems by simp
      show "length ns' = Suc (length ns)" by fact
      show "\<forall>a\<in>set as. a \<noteq> last as \<longrightarrow> next_node (ns' ! a) = next_node (ns ! a)"
        using Cons.prems(5) l by auto
      show "next_node (ns' ! last as) = Some (length ns)" using Cons.prems(6) l by simp
      show "next_node (ns' ! length ns) = None" by fact
    qed
    with a nx Cons.prems(4) show ?thesis by simp
  qed
qed

lemma fold_ord: "fold (\<lambda>ch total. total + ord ch) k s = s + sum_list (map ord k)"
  by (induction k arbitrary: s) auto

lemma hash_function_eq:
  "0 < size_table t \<Longrightarrow> hash_function t k = Inr (sum_list (map ord k) mod size_table t)"
  by (simp add: hash_function_def fold_ord)

lemma hash_function_range:
  assumes "0 < size_table t" "hash_function t k = Inr i"
  shows "0 \<le> i \<and> i < size_table t"
  using assms by (auto simp: hash_function_eq)

lemma getitem_nat: "i < length xs \<Longrightarrow> getitem xs (int i) = Inr (xs ! i)"
  by (simp add: getitem_def list_position_def)

lemma setitem_nat: "i < length xs \<Longrightarrow> setitem xs (int i) v = Inr (xs[i := v])"
  by (simp add: setitem_def list_position_def)

lemma table_inv_hash_index:
  assumes "table_inv h t bs"
  shows "\<exists>i<length bs. hash_function t k = Inr (int i)"
proof -
  from assms have sz: "0 < size_table t" and len: "length bs = nat (size_table t)"
    by (auto simp: table_inv_def table_chains_def)
  let ?i = "sum_list (map ord k) mod size_table t"
  from sz have "0 \<le> ?i" "?i < size_table t" by auto
  then have "nat ?i < length bs" "int (nat ?i) = ?i" using len by auto
  with sz show ?thesis using hash_function_eq[of t k] by metis
qed

lemma table_inv_hash:
  "table_inv h t bs \<Longrightarrow> i < length bs \<Longrightarrow> a \<in> set (bs ! i) \<Longrightarrow>
   hash_function t (key (nodes h ! a)) = Inr (int i)"
  by (simp add: table_inv_def)

lemma table_inv_disjoint:
  assumes "table_inv h t bs" "i < length bs" "j < length bs"
    and "a \<in> set (bs ! i)" "a \<in> set (bs ! j)"
  shows "i = j"
proof -
  from assms have "hash_function t (key (nodes h ! a)) = Inr (int i)"
    by (intro table_inv_hash)
  moreover from assms have "hash_function t (key (nodes h ! a)) = Inr (int j)"
    by (intro table_inv_hash)
  ultimately show ?thesis by simp
qed

lemma table_inv_chain:
  "table_inv h t bs \<Longrightarrow> i < length bs \<Longrightarrow> is_chain (nodes h) (data t ! i) (bs ! i)"
  by (simp add: table_inv_def table_chains_def)

lemma table_inv_distinct:
  assumes "table_inv h t bs" "i < length bs"
  shows "distinct (bs ! i)"
proof -
  from assms have "distinct (map (\<lambda>a. key (nodes h ! a)) (bs ! i))"
    by (simp add: table_inv_def)
  then show ?thesis by (simp add: distinct_map)
qed

lemma table_inv_bound:
  "table_inv h t bs \<Longrightarrow> i < length bs \<Longrightarrow> a \<in> set (bs ! i) \<Longrightarrow> a < length (nodes h)"
  using is_chain_bound table_inv_chain by blast

lemma table_inv_update:
  assumes inv: "table_inv h t bs" and v: "v < length (contacts h)"
  shows "table_inv (h\<lparr>contacts := (contacts h)[v := (contacts h ! v)\<lparr>number := num\<rparr>] @ [c]\<rparr>) t bs"
proof -
  let ?cs = "(contacts h)[v := (contacts h ! v)\<lparr>number := num\<rparr>] @ [c]"
  have nm: "name (?cs ! w) = name (contacts h ! w)" if "w < length (contacts h)" for w
    using that by (cases "w = v") (simp_all add: nth_append)
  from inv show ?thesis
    unfolding table_inv_def table_chains_def
    by (simp add: nm less_Suc_eq)
qed

lemma table_inv_new:
  assumes inv: "table_inv h t bs" and i: "i < length bs"
    and hash: "hash_function t k = Inr (int i)"
    and fresh: "\<forall>a\<in>set (bs ! i). key (nodes h ! a) \<noteq> k"
    and cs: "contacts h' = contacts h @ [\<lparr>name = k, number = num\<rparr>]"
    and len: "length (nodes h') = Suc (length (nodes h))"
    and new: "nodes h' ! length (nodes h) =
               \<lparr>key = k, value_node = length (contacts h), next_node = None\<rparr>"
    and kv: "\<forall>a<length (nodes h). key (nodes h' ! a) = key (nodes h ! a) \<and>
               value_node (nodes h' ! a) = value_node (nodes h ! a)"
    and nx: "\<forall>a<length (nodes h). bs ! i = [] \<or> a \<noteq> last (bs ! i) \<longrightarrow>
               next_node (nodes h' ! a) = next_node (nodes h ! a)"
    and link: "bs ! i \<noteq> [] \<longrightarrow> next_node (nodes h' ! last (bs ! i)) = Some (length (nodes h))"
    and sz: "size_table t' = size_table t"
    and dlen: "length (data t') = length (data t)"
    and other: "\<forall>j<length bs. j \<noteq> i \<longrightarrow> data t' ! j = data t ! j"
    and head: "data t' ! i = (if bs ! i = [] then Some (length (nodes h)) else data t ! i)"
  shows "table_inv h' t' (bs[i := bs ! i @ [length (nodes h)]])"
proof -
  let ?m = "length (nodes h)"
  let ?bs = "bs[i := bs ! i @ [?m]]"
  have hf: "hash_function t' = hash_function t"
    by (rule ext) (simp add: hash_function_def sz)
  have bound: "a < ?m" if "j < length bs" "a \<in> set (bs ! j)" for a j
    using that inv by (rule_tac table_inv_bound)
  have chain: "is_chain (nodes h') (data t' ! j) (?bs ! j)" if j: "j < length bs" for j
  proof (cases "j = i")
    case False
    have "is_chain (nodes h') (data t ! j) (bs ! j)"
    proof (rule is_chain_eq_on)
      show "is_chain (nodes h) (data t ! j) (bs ! j)" using inv j by (rule table_inv_chain)
      show "length (nodes h) \<le> length (nodes h')" using len by simp
      show "\<forall>a\<in>set (bs ! j). next_node (nodes h' ! a) = next_node (nodes h ! a)"
      proof
        fix a assume a: "a \<in> set (bs ! j)"
        have "bs ! i = [] \<or> a \<noteq> last (bs ! i)"
        proof (cases "bs ! i = []")
          case True then show ?thesis by simp
        next
          case ne: False
          then have "last (bs ! i) \<in> set (bs ! i)" by simp
          with table_inv_disjoint[OF inv j i a] False show ?thesis by auto
        qed
        with nx bound[OF j a] show "next_node (nodes h' ! a) = next_node (nodes h ! a)" by blast
      qed
    qed
    with False j other show ?thesis by simp
  next
    case True
    have c: "is_chain (nodes h) (data t ! i) (bs ! i)" using inv i by (rule table_inv_chain)
    show ?thesis
    proof (cases "bs ! i = []")
      case e: True
      with True i head len new show ?thesis by simp
    next
      case ne: False
      have "is_chain (nodes h') (data t ! i) (bs ! i @ [?m])"
      proof (rule is_chain_snoc_on[OF c ne])
        show "distinct (bs ! i)" using inv i by (rule table_inv_distinct)
        show "length (nodes h') = Suc ?m" by fact
        show "\<forall>a\<in>set (bs ! i). a \<noteq> last (bs ! i) \<longrightarrow>
                next_node (nodes h' ! a) = next_node (nodes h ! a)"
          using nx bound[OF i] by auto
        show "next_node (nodes h' ! last (bs ! i)) = Some ?m" using link ne by simp
        show "next_node (nodes h' ! ?m) = None" using new by simp
      qed
      with True i head ne show ?thesis by simp
    qed
  qed
  have hk: "hash_function t' (key (nodes h' ! a)) = Inr (int j)"
    if j: "j < length bs" and a: "a \<in> set (?bs ! j)" for a j
  proof (cases "a = ?m")
    case True
    with bound[OF j] a i have "j = i" by (cases "j = i") auto
    with True new hash hf show ?thesis by simp
  next
    case False
    with a i j have a': "a \<in> set (bs ! j)" by (cases "j = i") auto
    with kv bound[OF j a'] table_inv_hash[OF inv j a'] hf show ?thesis by simp
  qed
  have keys: "map (\<lambda>a. key (nodes h' ! a)) (bs ! j) = map (\<lambda>a. key (nodes h ! a)) (bs ! j)"
    if j: "j < length bs" for j
    using kv bound[OF j] by simp
  have dk: "distinct (map (\<lambda>a. key (nodes h' ! a)) (?bs ! j))" if j: "j < length bs" for j
  proof -
    from inv j have "distinct (map (\<lambda>a. key (nodes h ! a)) (bs ! j))"
      by (simp add: table_inv_def)
    then have d: "distinct (map (\<lambda>a. key (nodes h' ! a)) (bs ! j))"
      unfolding keys[OF j] .
    show ?thesis
    proof (cases "j = i")
      case False
      with d i show ?thesis by simp
    next
      case True
      have "k \<notin> set (map (\<lambda>a. key (nodes h ! a)) (bs ! i))" using fresh by auto
      then have "k \<notin> set (map (\<lambda>a. key (nodes h' ! a)) (bs ! i))"
        unfolding keys[OF i] .
      with True d i new show ?thesis by simp
    qed
  qed
  have vals: "value_node (nodes h' ! a) < length (contacts h') \<and>
        name (contacts h' ! value_node (nodes h' ! a)) = key (nodes h' ! a)"
    if "a < length (nodes h')" for a
  proof (cases "a = ?m")
    case True
    with new cs show ?thesis by simp
  next
    case False
    with that len have a: "a < ?m" by simp
    with inv have "value_node (nodes h ! a) < length (contacts h) \<and>
        name (contacts h ! value_node (nodes h ! a)) = key (nodes h ! a)"
      by (simp add: table_inv_def)
    with kv a cs show ?thesis by (simp add: nth_append)
  qed
  have "map value_node (nodes h') = map value_node (nodes h) @ [length (contacts h)]"
    using len kv new by (intro nth_equalityI) (auto simp: nth_append less_Suc_eq)
  moreover from inv have "distinct (map value_node (nodes h))"
    and "\<forall>a<?m. value_node (nodes h ! a) < length (contacts h)"
    by (auto simp: table_inv_def)
  ultimately have dv: "distinct (map value_node (nodes h'))"
    by (auto simp: in_set_conv_nth)
  from inv have "0 < size_table t" "length (data t) = nat (size_table t)"
    "length bs = length (data t)"
    by (auto simp: table_inv_def table_chains_def)
  with chain hk dk vals dv sz dlen show ?thesis
    unfolding table_inv_def table_chains_def by simp
qed

lemma table_inv_data_length: "table_inv h t bs \<Longrightarrow> length (data t) = length bs"
  by (simp add: table_inv_def table_chains_def)

lemma table_inv_value:
  "table_inv h t bs \<Longrightarrow> a < length (nodes h) \<Longrightarrow> value_node (nodes h ! a) < length (contacts h)"
  by (simp add: table_inv_def)

lemma table_inv_name:
  "table_inv h t bs \<Longrightarrow> a < length (nodes h) \<Longrightarrow>
   name (contacts h ! value_node (nodes h ! a)) = key (nodes h ! a)"
  by (simp add: table_inv_def)

lemma find_key_Some:
  "find (\<lambda>a. key (ns ! a) = k) as = Some b \<Longrightarrow> b \<in> set as \<and> key (ns ! b) = k"
  by (induction as) (auto split: if_splits)

lemma find_key_None:
  "find (\<lambda>a. key (ns ! a) = k) as = None \<longleftrightarrow> (\<forall>a\<in>set as. key (ns ! a) \<noteq> k)"
  by (induction as) auto

lemma insert_contact_update:
  assumes inv: "table_inv h t bs" and i: "i < length bs"
    and hash: "hash_function t k = Inr (int i)"
    and found: "find (\<lambda>a. key (nodes h ! a) = k) (bs ! i) = Some b"
  shows "insert_contact h t k num =
     Some (Inr (h\<lparr>contacts := (contacts h)[value_node (nodes h ! b) :=
                   (contacts h ! value_node (nodes h ! b))\<lparr>number := num\<rparr>] @
                   [\<lparr>name = k, number = num\<rparr>]\<rparr>, t))"
proof -
  let ?h1 = "h\<lparr>contacts := contacts h @ [\<lparr>name = k, number = num\<rparr>]\<rparr>"
  let ?v = "value_node (nodes h ! b)"
  from found have b: "b \<in> set (bs ! i)" by (auto dest: find_key_Some)
  then have bl: "b < length (nodes h)" using inv i by (rule_tac table_inv_bound)
  then have v: "?v < length (contacts h)" using inv by (rule_tac table_inv_value)
  have c: "is_chain (nodes h) (data t ! i) (bs ! i)" using inv i by (rule table_inv_chain)
  with b obtain hd where hd: "data t ! i = Some hd" by (cases "bs ! i") auto
  from i inv have get: "getitem (data t) (int i) = Inr (Some hd)"
    by (simp add: getitem_nat table_inv_data_length hd)
  have "insert_loop ?h1 hd k num (length (contacts h)) =
     Some (Inr (?h1\<lparr>contacts := (contacts ?h1)[value_node (nodes ?h1 ! b) :=
               (contacts ?h1 ! value_node (nodes ?h1 ! b))\<lparr>number := num\<rparr>]\<rparr>))"
    using c found v by (intro insert_loop_found[where as = "bs ! i"]) (simp_all add: hd)
  with v have "insert_loop ?h1 hd k num (length (contacts h)) =
     Some (Inr (h\<lparr>contacts := (contacts h)[?v := (contacts h ! ?v)\<lparr>number := num\<rparr>] @
                   [\<lparr>name = k, number = num\<rparr>]\<rparr>))"
    by (simp add: list_update_append1 nth_append)
  with hash get show ?thesis
    by (simp add: insert_contact_def new_Contact_def)
qed

lemma insert_contact_new:
  assumes inv: "table_inv h t bs" and i: "i < length bs"
    and hash: "hash_function t k = Inr (int i)"
    and fresh: "\<forall>a\<in>set (bs ! i). key (nodes h ! a) \<noteq> k"
  shows "insert_contact h t k num =
     Some (Inr (h\<lparr>contacts := contacts h @ [\<lparr>name = k, number = num\<rparr>],
                  nodes := (if bs ! i = [] then nodes h
                            else (nodes h)[last (bs ! i) :=
                                   (nodes h ! last (bs ! i))\<lparr>next_node := Some (length (nodes h))\<rparr>]) @
                           [\<lparr>key = k, value_node = length (contacts h), next_node = None\<rparr>]\<rparr>,
                t\<lparr>data := (if bs ! i = [] then (data t)[i := Some (length (nodes h))]
                            else data t)\<rparr>))"
proof -
  let ?h1 = "h\<lparr>contacts := contacts h @ [\<lparr>name = k, number = num\<rparr>]\<rparr>"
  have c: "is_chain (nodes h) (data t ! i) (bs ! i)" using inv i by (rule table_inv_chain)
  from i inv have il: "i < length (data t)" by (simp add: table_inv_data_length)
  show ?thesis
  proof (cases "bs ! i = []")
    case True
    with c have "data t ! i = None" by simp
    with il have "getitem (data t) (int i) = Inr None" by (simp add: getitem_nat)
    with hash il True show ?thesis
      by (simp add: insert_contact_def new_Contact_def new_Node_def setitem_nat)
  next
    case False
    with c obtain hd where hd: "data t ! i = Some hd" by (cases "bs ! i") auto
    with il have get: "getitem (data t) (int i) = Inr (Some hd)" by (simp add: getitem_nat)
    from False have "last (bs ! i) \<in> set (bs ! i)" by simp
    then have l: "last (bs ! i) < length (nodes h)" using inv i by (rule_tac table_inv_bound)
    have "insert_loop ?h1 hd k num (length (contacts h)) =
      Some (Inr (?h1\<lparr>nodes := (nodes ?h1 @
                 [\<lparr>key = k, value_node = length (contacts h), next_node = None\<rparr>])
               [last (bs ! i) := (nodes ?h1 ! last (bs ! i))\<lparr>next_node := Some (length (nodes ?h1))\<rparr>]\<rparr>))"
      using c fresh by (intro insert_loop_new) (simp_all add: hd)
    with l hash get False show ?thesis
      by (simp add: insert_contact_def new_Contact_def list_update_append1)
  qed
qed

lemma insert_new_props:
  assumes inv: "table_inv h t bs" and i: "i < length bs"
    and hash: "hash_function t k = Inr (int i)"
    and fresh: "\<forall>a\<in>set (bs ! i). key (nodes h ! a) \<noteq> k"
    and res: "insert_contact h t k num = Some (Inr (h', t'))"
  shows "table_inv h' t' (bs[i := bs ! i @ [length (nodes h)]])"
    and "contacts h' = contacts h @ [\<lparr>name = k, number = num\<rparr>]"
    and "length (nodes h') = Suc (length (nodes h))"
    and "nodes h' ! length (nodes h) =
           \<lparr>key = k, value_node = length (contacts h), next_node = None\<rparr>"
    and "\<forall>a<length (nodes h). key (nodes h' ! a) = key (nodes h ! a) \<and>
           value_node (nodes h' ! a) = value_node (nodes h ! a)"
    and "\<forall>a<length (nodes h). bs ! i = [] \<or> a \<noteq> last (bs ! i) \<longrightarrow> nodes h' ! a = nodes h ! a"
    and "size_table t' = size_table t"
    and "length (data t') = length (data t)"
    and "\<forall>j<length bs. j \<noteq> i \<longrightarrow> data t' ! j = data t ! j"
proof -
  let ?m = "length (nodes h)"
  let ?l = "last (bs ! i)"
  from insert_contact_new[OF inv i hash fresh, of num] res
  have h': "h' = h\<lparr>contacts := contacts h @ [\<lparr>name = k, number = num\<rparr>],
                  nodes := (if bs ! i = [] then nodes h
                            else (nodes h)[?l := (nodes h ! ?l)\<lparr>next_node := Some ?m\<rparr>]) @
                           [\<lparr>key = k, value_node = length (contacts h), next_node = None\<rparr>]\<rparr>"
    and t': "t' = t\<lparr>data := (if bs ! i = [] then (data t)[i := Some ?m] else data t)\<rparr>"
    by simp_all
  from i inv have il: "i < length (data t)" by (simp add: table_inv_data_length)
  have lb: "?l < ?m" if "bs ! i \<noteq> []"
  proof -
    from that have "?l \<in> set (bs ! i)" by simp
    then show ?thesis using inv i by (rule_tac table_inv_bound)
  qed
  show cs: "contacts h' = contacts h @ [\<lparr>name = k, number = num\<rparr>]" by (simp add: h')
  show len: "length (nodes h') = Suc ?m" by (simp add: h')
  show new: "nodes h' ! ?m = \<lparr>key = k, value_node = length (contacts h), next_node = None\<rparr>"
    by (simp add: h' nth_append)
  show kv: "\<forall>a<?m. key (nodes h' ! a) = key (nodes h ! a) \<and>
           value_node (nodes h' ! a) = value_node (nodes h ! a)"
    using lb by (auto simp: h' nth_append nth_list_update)
  show same: "\<forall>a<?m. bs ! i = [] \<or> a \<noteq> ?l \<longrightarrow> nodes h' ! a = nodes h ! a"
    by (auto simp: h' nth_append)
  show sz: "size_table t' = size_table t" by (simp add: t')
  show dlen: "length (data t') = length (data t)" by (simp add: t')
  show other: "\<forall>j<length bs. j \<noteq> i \<longrightarrow> data t' ! j = data t ! j" by (simp add: t')
  show "table_inv h' t' (bs[i := bs ! i @ [?m]])"
  proof (rule table_inv_new[OF inv i hash fresh cs len new kv _ _ sz dlen other])
    show "\<forall>a<?m. bs ! i = [] \<or> a \<noteq> ?l \<longrightarrow> next_node (nodes h' ! a) = next_node (nodes h ! a)"
      using same by auto
    show "bs ! i \<noteq> [] \<longrightarrow> next_node (nodes h' ! ?l) = Some ?m"
    proof
      assume ne: "bs ! i \<noteq> []"
      then have "?l \<in> set (bs ! i)" by simp
      then have "?l < ?m" using inv i by (rule_tac table_inv_bound)
      with ne show "next_node (nodes h' ! ?l) = Some ?m" by (simp add: h' nth_append)
    qed
    show "data t' ! i = (if bs ! i = [] then Some ?m else data t ! i)"
      using il by (simp add: t')
  qed
qed

lemma entry_new_old:
  assumes "contacts h' = contacts h @ [c]"
    and "key (nodes h' ! a) = key (nodes h ! a)"
    and "value_node (nodes h' ! a) = value_node (nodes h ! a)"
    and "value_node (nodes h ! a) < length (contacts h)"
  shows "entry h' a = entry h a"
  using assms by (simp add: entry_def nth_append)

lemma search_table:
  assumes inv: "table_inv h t bs" and i: "i < length bs"
    and hash: "hash_function t k = Inr (int i)"
  shows "search h t k =
     Some (Inr (map_option (\<lambda>a. value_node (nodes h ! a))
                  (find (\<lambda>a. key (nodes h ! a) = k) (bs ! i))))"
proof -
  from i inv have "getitem (data t) (int i) = Inr (data t ! i)"
    by (simp add: getitem_nat table_inv_data_length)
  with hash search_loop_chain[OF table_inv_chain[OF inv i]] show ?thesis
    by (simp add: search_def)
qed

lemma bucket_entries_table:
  "table_inv h t bs \<Longrightarrow> i < length bs \<Longrightarrow> bucket_entries h t i = Some (map (entry h) (bs ! i))"
  by (simp add: bucket_entries_def chain_refs_chain[OF table_inv_chain])

lemma print_chain_table:
  assumes inv: "table_inv h t bs" and i: "i < length bs"
  shows "print_chain h (data t ! i) =
     Some (Inr (concat (map (\<lambda>a. ''- '' @ Contact_str (snd (entry h a)) @ '' '') (bs ! i))))"
proof -
  have "\<forall>a\<in>set (bs ! i). value_node (nodes h ! a) < length (contacts h)"
    using table_inv_bound[OF inv i] table_inv_value[OF inv] by blast
  from print_chain_chain[OF table_inv_chain[OF inv i] this] show ?thesis
    by (simp add: entry_def)
qed

lemma insert_contact_step:
  assumes inv: "table_inv h t bs"
  shows "\<exists>h' t' bs'. insert_contact h t k num = Some (Inr (h', t')) \<and> table_inv h' t' bs' \<and>
           size_table t' = size_table t \<and> chain_keys h' bs' = insert k (chain_keys h bs)"
proof -
  from table_inv_hash_index[OF inv] obtain i where i: "i < length bs"
    and hash: "hash_function t k = Inr (int i)" by blast
  show ?thesis
  proof (cases "find (\<lambda>a. key (nodes h ! a) = k) (bs ! i)")
    case (Some b)
    let ?v = "value_node (nodes h ! b)"
    let ?h' = "h\<lparr>contacts := (contacts h)[?v := (contacts h ! ?v)\<lparr>number := num\<rparr>] @
                   [\<lparr>name = k, number = num\<rparr>]\<rparr>"
    from Some have b: "b \<in> set (bs ! i)" "key (nodes h ! b) = k"
      by (auto dest: find_key_Some)
    then have "b < length (nodes h)" using inv i by (rule_tac table_inv_bound)
    then have "?v < length (contacts h)" using inv by (rule_tac table_inv_value)
    then have "table_inv ?h' t bs" using inv by (rule_tac table_inv_update)
    moreover have "chain_keys ?h' bs = insert k (chain_keys h bs)"
      using b i by (auto simp: chain_keys_def)
    ultimately show ?thesis using insert_contact_update[OF inv i hash Some, of num] by blast
  next
    case None
    then have fresh: "\<forall>a\<in>set (bs ! i). key (nodes h ! a) \<noteq> k" by (simp add: find_key_None)
    from insert_contact_new[OF inv i hash fresh, of num]
    obtain h' t' where res: "insert_contact h t k num = Some (Inr (h', t'))" by blast
    note p = insert_new_props[OF inv i hash fresh res]
    let ?bs = "bs[i := bs ! i @ [length (nodes h)]]"
    have keys: "(\<lambda>a. key (nodes h' ! a)) ` set (?bs ! j) =
        (if j = i then insert k ((\<lambda>a. key (nodes h ! a)) ` set (bs ! j))
         else (\<lambda>a. key (nodes h ! a)) ` set (bs ! j))" if j: "j < length bs" for j
    proof -
      have "(\<lambda>a. key (nodes h' ! a)) ` set (bs ! j) = (\<lambda>a. key (nodes h ! a)) ` set (bs ! j)"
        using p(5) table_inv_bound[OF inv j] by (intro image_cong) auto
      with j i p(4) show ?thesis by (cases "j = i") auto
    qed
    have "chain_keys h' ?bs = insert k (chain_keys h bs)"
      using i keys by (auto simp: chain_keys_def split: if_splits)
    with res p(1) p(7) show ?thesis by blast
  qed
qed

lemma insert_all_inv:
  "table_inv h t bs \<Longrightarrow>
   \<exists>h' t' bs'. insert_all h t calls = Some (Inr (h', t')) \<and> table_inv h' t' bs' \<and>
      size_table t' = size_table t \<and> chain_keys h' bs' = chain_keys h bs \<union> fst ` set calls"
proof (induction calls arbitrary: h t bs)
  case Nil
  then show ?case by auto
next
  case (Cons c calls)
  obtain k num where c: "c = (k, num)" by (cases c)
  from insert_contact_step[OF Cons.prems, of k num] obtain h1 t1 bs1
    where s: "insert_contact h t k num = Some (Inr (h1, t1))" "table_inv h1 t1 bs1"
      "size_table t1 = size_table t" "chain_keys h1 bs1 = insert k (chain_keys h bs)"
    by blast
  from Cons.IH[OF s(2)] obtain h' t' bs'
    where r: "insert_all h1 t1 calls = Some (Inr (h', t'))" "table_inv h' t' bs'"
      "size_table t' = size_table t1" "chain_keys h' bs' = chain_keys h1 bs1 \<union> fst ` set calls"
    by blast
  from s r c show ?case by auto
qed

lemma table_inv_init:
  assumes "0 < sz"
  shows "table_inv empty_heap \<lparr>size_table = sz, data = replicate (nat sz) None\<rparr>
           (replicate (nat sz) [])"
  using assms by (simp add: table_inv_def table_chains_def empty_heap_def)

lemma built_inv:
  assumes "built sz calls h t"
  shows "0 < sz \<and> size_table t = sz \<and>
         (\<exists>bs. table_inv h t bs \<and> chain_keys h bs = fst ` set calls)"
proof -
  from assms have sz: "0 < sz"
    by (auto simp: built_def HashTable_init_def split: if_splits)
  let ?t0 = "\<lparr>size_table = sz, data = replicate (nat sz) None\<rparr>"
  from assms sz have run: "insert_all empty_heap ?t0 calls = Some (Inr (h, t))"
    by (simp add: built_def HashTable_init_def)
  have "chain_keys empty_heap (replicate (nat sz) []) = {}"
    by (simp add: chain_keys_def)
  with insert_all_inv[OF table_inv_init[OF sz], of calls] run sz show ?thesis by auto
qed

lemma built_total:
  assumes "0 < sz"
  shows "\<exists>h t. built sz calls h t"
  using insert_all_inv[OF table_inv_init[OF assms], of calls] assms
  by (auto simp: built_def HashTable_init_def)

text \<open>
  Claim C6. For a table constructed with a positive capacity \<open>sz\<close>, and after any
  sequence of \<open>insert\<close> calls, \<open>hash_function\<close> returns, for every key, the sum of the
  code points of the key modulo \<open>sz\<close>; the index is at least 0 and below \<open>sz\<close>, and
  the empty key is sent to index 0. The function takes the table and the key and returns
  an index only: it reads \<open>self.size\<close> and writes nothing, so the same key on the same
  table gives the same index.
\<close>

theorem hash_function_sum_mod:
  assumes "built sz calls h t"
  shows "hash_function t k = Inr ((\<Sum>ch\<leftarrow>k. ord ch) mod sz) \<and>
         0 \<le> (\<Sum>ch\<leftarrow>k. ord ch) mod sz \<and> (\<Sum>ch\<leftarrow>k. ord ch) mod sz < sz \<and>
         hash_function t [] = Inr 0"
proof -
  from built_inv[OF assms] have "0 < sz" "size_table t = sz" by auto
  then show ?thesis by (simp add: hash_function_eq)
qed

theorem hash_function_sum_mod_witness:
  "built 10 [(''Amy'', ''111-222-3333'')]
     \<lparr>contacts = [\<lparr>name = ''Amy'', number = ''111-222-3333''\<rparr>],
      nodes = [\<lparr>key = ''Amy'', value_node = 0, next_node = None\<rparr>]\<rparr>
     \<lparr>size_table = 10, data = [None, None, None, None, None, Some 0, None, None, None, None]\<rparr> \<and>
   hash_function
     \<lparr>size_table = 10, data = [None, None, None, None, None, Some 0, None, None, None, None]\<rparr>
     ''May'' = Inr 5"
proof -
  have b: "built 10 [(''Amy'', ''111-222-3333'')]
     \<lparr>contacts = [\<lparr>name = ''Amy'', number = ''111-222-3333''\<rparr>],
      nodes = [\<lparr>key = ''Amy'', value_node = 0, next_node = None\<rparr>]\<rparr>
     \<lparr>size_table = 10, data = [None, None, None, None, None, Some 0, None, None, None, None]\<rparr>"
    by code_simp
  from hash_function_sum_mod[OF b, of "''May''"] b show ?thesis
    by (simp add: ord_def)
qed

lemma hash_function_size:
  "size_table t' = size_table t \<Longrightarrow> hash_function t' k = hash_function t k"
  by (simp add: hash_function_def)

lemma Contact_number_update:
  "name c = k \<Longrightarrow> c\<lparr>number := num\<rparr> = \<lparr>name = k, number = num\<rparr>"
  by (cases c) simp

lemma find_snoc: "\<forall>x\<in>set xs. \<not> P x \<Longrightarrow> P y \<Longrightarrow> find P (xs @ [y]) = Some y"
  by (induction xs) auto

lemma search_after_new:
  assumes inv: "table_inv h t bs" and i: "i < length bs"
    and hash: "hash_function t k = Inr (int i)"
    and fresh: "\<forall>a\<in>set (bs ! i). key (nodes h ! a) \<noteq> k"
    and res: "insert_contact h t k num = Some (Inr (h', t'))"
  shows "search h' t' k = Some (Inr (Some (length (contacts h))))"
    and "Contact_at h' (length (contacts h)) = Some \<lparr>name = k, number = num\<rparr>"
proof -
  note p = insert_new_props[OF inv i hash fresh res]
  let ?m = "length (nodes h)"
  let ?bs = "bs[i := bs ! i @ [?m]]"
  have old: "\<forall>a\<in>set (bs ! i). key (nodes h' ! a) \<noteq> k"
    using fresh p(5) table_inv_bound[OF inv i] by auto
  with p(4) i have f: "find (\<lambda>a. key (nodes h' ! a) = k) (?bs ! i) = Some ?m"
    by (simp add: find_snoc)
  have hash': "hash_function t' k = Inr (int i)"
    using hash hash_function_size[OF p(7), of k] by simp
  have il: "i < length ?bs" using i by simp
  have v: "value_node (nodes h' ! ?m) = length (contacts h)" by (simp add: p(4))
  have "search h' t' k =
      Some (Inr (map_option (\<lambda>a. value_node (nodes h' ! a))
                   (find (\<lambda>a. key (nodes h' ! a) = k) (?bs ! i))))"
    by (rule search_table[OF p(1) il hash'])
  then show "search h' t' k = Some (Inr (Some (length (contacts h))))"
    unfolding f by (simp only: option.map v)
  show "Contact_at h' (length (contacts h)) = Some \<lparr>name = k, number = num\<rparr>"
    by (simp add: Contact_at_def p(2))
qed

lemma built_fresh:
  assumes inv: "table_inv h t bs" and keys: "chain_keys h bs = fst ` set calls"
    and k: "k \<notin> fst ` set calls" and i: "i < length bs"
  shows "\<forall>a\<in>set (bs ! i). key (nodes h ! a) \<noteq> k"
proof
  fix a assume "a \<in> set (bs ! i)"
  with i have "key (nodes h ! a) \<in> chain_keys h bs" by (auto simp: chain_keys_def)
  with keys k show "key (nodes h ! a) \<noteq> k" by auto
qed

text \<open>
  Claim C1. Insert-then-search round trip: when the key \<open>k\<close> was never inserted into the
  table before, \<open>insert(k, num)\<close> returns, and \<open>search(k)\<close> afterwards returns a record,
  the Contact created by this call, whose name is \<open>k\<close> and whose number is \<open>num\<close>.
\<close>

theorem insert_then_search:
  assumes "built sz calls h t" and "k \<notin> fst ` set calls"
  shows "\<exists>h' t' r. insert_contact h t k num = Some (Inr (h', t')) \<and>
           search h' t' k = Some (Inr (Some r)) \<and> r = length (contacts h) \<and>
           Contact_at h' r = Some \<lparr>name = k, number = num\<rparr>"
proof -
  from built_inv[OF assms(1)] obtain bs where inv: "table_inv h t bs"
    and keys: "chain_keys h bs = fst ` set calls" by blast
  from table_inv_hash_index[OF inv] obtain i where i: "i < length bs"
    and hash: "hash_function t k = Inr (int i)" by blast
  note fresh = built_fresh[OF inv keys assms(2) i]
  from insert_contact_new[OF inv i hash fresh, of num]
  obtain h' t' where res: "insert_contact h t k num = Some (Inr (h', t'))" by blast
  from search_after_new[OF inv i hash fresh res] res show ?thesis by blast
qed

text \<open>
  Claim C7. Not-found contract: when the key \<open>k\<close> was never inserted into the table,
  \<open>search(k)\<close> returns \<open>None\<close>: it returns (it does not run forever), it raises nothing,
  and it returns no record. \<open>search\<close> only reads: it has no assignment, and the model
  of it returns no store and no table.
\<close>

theorem search_never_inserted:
  assumes "built sz calls h t" and "k \<notin> fst ` set calls"
  shows "search h t k = Some (Inr None)"
proof -
  from built_inv[OF assms(1)] obtain bs where inv: "table_inv h t bs"
    and keys: "chain_keys h bs = fst ` set calls" by blast
  from table_inv_hash_index[OF inv] obtain i where i: "i < length bs"
    and hash: "hash_function t k = Inr (int i)" by blast
  from built_fresh[OF inv keys assms(2) i]
  have "find (\<lambda>a. key (nodes h ! a) = k) (bs ! i) = None" by (simp add: find_key_None)
  with search_table[OF inv i hash] show ?thesis by simp
qed

text \<open>
  Claim C9. Live handle: what \<open>search(k)\<close> returns is a reference to the Contact the
  table holds, not a copy. When \<open>search(k)\<close> returned the reference \<open>r\<close>, a later
  \<open>insert(k, num2)\<close> returns, and the object behind the same \<open>r\<close> then has the number
  \<open>num2\<close> (and the name \<open>k\<close>); \<open>search(k)\<close> still returns \<open>r\<close>.
\<close>

theorem search_handle_sees_update:
  assumes "built sz calls h t" and "search h t k = Some (Inr (Some r))"
  shows "\<exists>h' t'. insert_contact h t k num2 = Some (Inr (h', t')) \<and>
           Contact_at h' r = Some \<lparr>name = k, number = num2\<rparr> \<and>
           search h' t' k = Some (Inr (Some r))"
proof -
  from built_inv[OF assms(1)] obtain bs where inv: "table_inv h t bs" by blast
  from table_inv_hash_index[OF inv] obtain i where i: "i < length bs"
    and hash: "hash_function t k = Inr (int i)" by blast
  from search_table[OF inv i hash] assms(2) obtain b
    where f: "find (\<lambda>a. key (nodes h ! a) = k) (bs ! i) = Some b"
      and r: "r = value_node (nodes h ! b)"
    by (cases "find (\<lambda>a. key (nodes h ! a) = k) (bs ! i)") auto
  let ?v = "value_node (nodes h ! b)"
  let ?h' = "h\<lparr>contacts := (contacts h)[?v := (contacts h ! ?v)\<lparr>number := num2\<rparr>] @
                   [\<lparr>name = k, number = num2\<rparr>]\<rparr>"
  from f have b: "b \<in> set (bs ! i)" "key (nodes h ! b) = k" by (auto dest: find_key_Some)
  then have bl: "b < length (nodes h)" using inv i by (rule_tac table_inv_bound)
  with inv have rl: "?v < length (contacts h)" by (simp add: table_inv_value)
  from inv bl b have nm: "name (contacts h ! ?v) = k" by (simp add: table_inv_name)
  have res: "insert_contact h t k num2 = Some (Inr (?h', t))"
    by (rule insert_contact_update[OF inv i hash f])
  from rl nm have c: "Contact_at ?h' ?v = Some \<lparr>name = k, number = num2\<rparr>"
    by (simp add: Contact_at_def nth_append Contact_number_update)
  from rl inv have inv': "table_inv ?h' t bs" by (rule_tac table_inv_update)
  have "search ?h' t k =
      Some (Inr (map_option (\<lambda>a. value_node (nodes h ! a))
                   (find (\<lambda>a. key (nodes h ! a) = k) (bs ! i))))"
    using search_table[OF inv' i hash] by simp
  then have s: "search ?h' t k = Some (Inr (Some ?v))"
    unfolding f by simp
  show ?thesis
    unfolding r
  proof (intro exI conjI)
    show "insert_contact h t k num2 = Some (Inr (?h', t))" by (rule res)
    show "Contact_at ?h' ?v = Some \<lparr>name = k, number = num2\<rparr>" by (rule c)
    show "search ?h' t k = Some (Inr (Some ?v))" by (rule s)
  qed
qed

theorem insert_then_search_witness:
  "built 10 [(''John'', ''909-876-1234'')]
     \<lparr>contacts = [\<lparr>name = ''John'', number = ''909-876-1234''\<rparr>],
      nodes = [\<lparr>key = ''John'', value_node = 0, next_node = None\<rparr>]\<rparr>
     \<lparr>size_table = 10, data = [None, None, None, None, None, None, None, None, None, Some 0]\<rparr> \<and>
   ''Rebecca'' \<notin> fst ` set [(''John'', ''909-876-1234'')] \<and>
   (\<exists>h' t' r.
      insert_contact
        \<lparr>contacts = [\<lparr>name = ''John'', number = ''909-876-1234''\<rparr>],
         nodes = [\<lparr>key = ''John'', value_node = 0, next_node = None\<rparr>]\<rparr>
        \<lparr>size_table = 10, data = [None, None, None, None, None, None, None, None, None, Some 0]\<rparr>
        ''Rebecca'' ''111-555-0002'' = Some (Inr (h', t')) \<and>
      search h' t' ''Rebecca'' = Some (Inr (Some r)) \<and> r = 1 \<and>
      Contact_at h' r = Some \<lparr>name = ''Rebecca'', number = ''111-555-0002''\<rparr>)"
proof -
  have b: "built 10 [(''John'', ''909-876-1234'')]
     \<lparr>contacts = [\<lparr>name = ''John'', number = ''909-876-1234''\<rparr>],
      nodes = [\<lparr>key = ''John'', value_node = 0, next_node = None\<rparr>]\<rparr>
     \<lparr>size_table = 10, data = [None, None, None, None, None, None, None, None, None, Some 0]\<rparr>"
    by code_simp
  have k: "''Rebecca'' \<notin> fst ` set [(''John'', ''909-876-1234'')]" by simp
  from insert_then_search[OF b k, of "''111-555-0002''"] b k show ?thesis by simp
qed

theorem search_never_inserted_witness:
  "built 10 [(''John'', ''909-876-1234''), (''Rebecca'', ''111-555-0002'')]
     \<lparr>contacts = [\<lparr>name = ''John'', number = ''909-876-1234''\<rparr>,
                  \<lparr>name = ''Rebecca'', number = ''111-555-0002''\<rparr>],
      nodes = [\<lparr>key = ''John'', value_node = 0, next_node = None\<rparr>,
               \<lparr>key = ''Rebecca'', value_node = 1, next_node = None\<rparr>]\<rparr>
     \<lparr>size_table = 10, data = [None, None, None, None, None, None, None, Some 1, None, Some 0]\<rparr> \<and>
   ''Chris'' \<notin> fst ` set [(''John'', ''909-876-1234''), (''Rebecca'', ''111-555-0002'')] \<and>
   search
     \<lparr>contacts = [\<lparr>name = ''John'', number = ''909-876-1234''\<rparr>,
                  \<lparr>name = ''Rebecca'', number = ''111-555-0002''\<rparr>],
      nodes = [\<lparr>key = ''John'', value_node = 0, next_node = None\<rparr>,
               \<lparr>key = ''Rebecca'', value_node = 1, next_node = None\<rparr>]\<rparr>
     \<lparr>size_table = 10, data = [None, None, None, None, None, None, None, Some 1, None, Some 0]\<rparr>
     ''Chris'' = Some (Inr None)"
proof -
  have b: "built 10 [(''John'', ''909-876-1234''), (''Rebecca'', ''111-555-0002'')]
     \<lparr>contacts = [\<lparr>name = ''John'', number = ''909-876-1234''\<rparr>,
                  \<lparr>name = ''Rebecca'', number = ''111-555-0002''\<rparr>],
      nodes = [\<lparr>key = ''John'', value_node = 0, next_node = None\<rparr>,
               \<lparr>key = ''Rebecca'', value_node = 1, next_node = None\<rparr>]\<rparr>
     \<lparr>size_table = 10, data = [None, None, None, None, None, None, None, Some 1, None, Some 0]\<rparr>"
    by code_simp
  have k: "''Chris'' \<notin> fst ` set [(''John'', ''909-876-1234''), (''Rebecca'', ''111-555-0002'')]"
    by simp
  from search_never_inserted[OF b k] b k show ?thesis by simp
qed

theorem search_handle_sees_update_witness:
  "built 10 [(''Amy'', ''111-222-3333''), (''May'', ''222-333-1111'')]
     \<lparr>contacts = [\<lparr>name = ''Amy'', number = ''111-222-3333''\<rparr>,
                  \<lparr>name = ''May'', number = ''222-333-1111''\<rparr>],
      nodes = [\<lparr>key = ''Amy'', value_node = 0, next_node = Some 1\<rparr>,
               \<lparr>key = ''May'', value_node = 1, next_node = None\<rparr>]\<rparr>
     \<lparr>size_table = 10, data = [None, None, None, None, None, Some 0, None, None, None, None]\<rparr> \<and>
   search
     \<lparr>contacts = [\<lparr>name = ''Amy'', number = ''111-222-3333''\<rparr>,
                  \<lparr>name = ''May'', number = ''222-333-1111''\<rparr>],
      nodes = [\<lparr>key = ''Amy'', value_node = 0, next_node = Some 1\<rparr>,
               \<lparr>key = ''May'', value_node = 1, next_node = None\<rparr>]\<rparr>
     \<lparr>size_table = 10, data = [None, None, None, None, None, Some 0, None, None, None, None]\<rparr>
     ''May'' = Some (Inr (Some 1)) \<and>
   (\<exists>h' t'.
      insert_contact
        \<lparr>contacts = [\<lparr>name = ''Amy'', number = ''111-222-3333''\<rparr>,
                     \<lparr>name = ''May'', number = ''222-333-1111''\<rparr>],
         nodes = [\<lparr>key = ''Amy'', value_node = 0, next_node = Some 1\<rparr>,
                  \<lparr>key = ''May'', value_node = 1, next_node = None\<rparr>]\<rparr>
        \<lparr>size_table = 10, data = [None, None, None, None, None, Some 0, None, None, None, None]\<rparr>
        ''May'' ''999-444-9999'' = Some (Inr (h', t')) \<and>
      Contact_at h' 1 = Some \<lparr>name = ''May'', number = ''999-444-9999''\<rparr> \<and>
      search h' t' ''May'' = Some (Inr (Some 1)))"
proof -
  have b: "built 10 [(''Amy'', ''111-222-3333''), (''May'', ''222-333-1111'')]
     \<lparr>contacts = [\<lparr>name = ''Amy'', number = ''111-222-3333''\<rparr>,
                  \<lparr>name = ''May'', number = ''222-333-1111''\<rparr>],
      nodes = [\<lparr>key = ''Amy'', value_node = 0, next_node = Some 1\<rparr>,
               \<lparr>key = ''May'', value_node = 1, next_node = None\<rparr>]\<rparr>
     \<lparr>size_table = 10, data = [None, None, None, None, None, Some 0, None, None, None, None]\<rparr>"
    by code_simp
  have s: "search
     \<lparr>contacts = [\<lparr>name = ''Amy'', number = ''111-222-3333''\<rparr>,
                  \<lparr>name = ''May'', number = ''222-333-1111''\<rparr>],
      nodes = [\<lparr>key = ''Amy'', value_node = 0, next_node = Some 1\<rparr>,
               \<lparr>key = ''May'', value_node = 1, next_node = None\<rparr>]\<rparr>
     \<lparr>size_table = 10, data = [None, None, None, None, None, Some 0, None, None, None, None]\<rparr>
     ''May'' = Some (Inr (Some 1))"
    by code_simp
  from search_handle_sees_update[OF b s, of "''999-444-9999''"] b s show ?thesis by simp
qed

end
